theory Spec2Isabelle
  imports Main "HOL-Library.Char_ord" "HOL-Library.List_Lexorder" "HOL-Library.Multiset"
begin

section \<open>Dates and timestamps\<close>

text \<open>
  The engine works on values of Python's \<open>datetime\<close> module. A \<open>date\<close> is modelled
  by its proleptic Gregorian ordinal (\<open>date.toordinal()\<close>: 1 is 0001-01-01), a
  \<open>datetime\<close> by the number of minutes since midnight of ordinal 0 and a
  \<open>timedelta\<close> by a number of minutes: every timestamp of the engine comes from
  \<open>strptime\<close> with the format \<open>%Y-%m-%d %H:%M\<close>, so seconds and microseconds are 0.
  Comparison is comparison of integers. The library holds dates from 0001-01-01
  (ordinal 1) to 9999-12-31 (ordinal 3652059): \<open>date + timedelta\<close> and
  \<open>datetime + timedelta\<close> raise \<open>OverflowError\<close> when the day of the result is
  outside this range.
\<close>

type_synonym date = int
type_synonym datetime = int
type_synonym timedelta = int

datatype error = ValueError | OverflowError

definition MAXORDINAL :: int where
  "MAXORDINAL = 3652059"

definition dt_date :: "datetime \<Rightarrow> date" where
  "dt_date t = t div 1440"

definition dt_time :: "datetime \<Rightarrow> int" where
  "dt_time t = t mod 1440"

definition combine :: "date \<Rightarrow> int \<Rightarrow> datetime" where
  "combine d tm = d * 1440 + tm"

definition date_add :: "date \<Rightarrow> int \<Rightarrow> error + date" where
  "date_add d days =
     (let ordinal = d + days
      in if 0 < ordinal \<and> ordinal \<le> MAXORDINAL then Inr ordinal else Inl OverflowError)"

definition datetime_add :: "datetime \<Rightarrow> timedelta \<Rightarrow> error + datetime" where
  "datetime_add t delta =
     (let r = t + delta
      in if 0 < dt_date r \<and> dt_date r \<le> MAXORDINAL then Inr r else Inl OverflowError)"

definition weekday :: "date \<Rightarrow> int" where
  "weekday d = (d + 6) mod 7"

definition is_leap :: "int \<Rightarrow> bool" where
  "is_leap year = (year mod 4 = 0 \<and> (year mod 100 \<noteq> 0 \<or> year mod 400 = 0))"

definition days_before_year :: "int \<Rightarrow> int" where
  "days_before_year year =
     (let y = year - 1 in y * 365 + y div 4 - y div 100 + y div 400)"

fun DAYS_IN_MONTH :: "int \<Rightarrow> int" where
  "DAYS_IN_MONTH m =
     (if m = 2 then 28
      else if m = 4 \<or> m = 6 \<or> m = 9 \<or> m = 11 then 30
      else 31)"

fun DAYS_BEFORE_MONTH :: "int \<Rightarrow> int" where
  "DAYS_BEFORE_MONTH m =
     (if m \<le> 1 then 0 else if m = 2 then 31 else if m = 3 then 59
      else if m = 4 then 90 else if m = 5 then 120 else if m = 6 then 151
      else if m = 7 then 181 else if m = 8 then 212 else if m = 9 then 243
      else if m = 10 then 273 else if m = 11 then 304 else 334)"

definition days_before_month :: "int \<Rightarrow> int \<Rightarrow> int" where
  "days_before_month year month =
     DAYS_BEFORE_MONTH month + (if month > 2 \<and> is_leap year then 1 else 0)"

definition ymd2ord :: "int \<Rightarrow> int \<Rightarrow> int \<Rightarrow> date" where
  "ymd2ord year month day =
     days_before_year year + days_before_month year month + day"

text \<open>
  \<open>ord2ymd\<close> is the library's conversion of an ordinal to (year, month, day): the
  number of whole 400-, 100-, 4- and 1-year cycles before the date, then an estimate
  of the month that is too large by at most one.
\<close>

definition ord2ymd :: "date \<Rightarrow> int \<times> int \<times> int" where
  "ord2ymd ordinal =
     (let n = ordinal - 1;
          n400 = n div 146097; n = n mod 146097;
          n100 = n div 36524; n = n mod 36524;
          n4 = n div 1461; n = n mod 1461;
          n1 = n div 365; n = n mod 365;
          year = n400 * 400 + 1 + n100 * 100 + n4 * 4 + n1
      in if n1 = 4 \<or> n100 = 4 then (year - 1, 12, 31)
         else
           let leapyear = (n1 = 3 \<and> (n4 \<noteq> 24 \<or> n100 = 3));
               month = (n + 50) div 32;
               preceding = DAYS_BEFORE_MONTH month + (if month > 2 \<and> leapyear then 1 else 0)
           in if preceding > n
              then let month = month - 1;
                       preceding = preceding
                         - (DAYS_IN_MONTH month + (if month = 2 \<and> leapyear then 1 else 0))
                   in (year, month, n - preceding + 1)
              else (year, month, n - preceding + 1))"

definition date_day :: "date \<Rightarrow> int" where
  "date_day d = snd (snd (ord2ymd d))"

section \<open>Strings\<close>

text \<open>
  A \<open>char\<close> stands for one code point below 256 of a Python \<open>str\<close>. In that range
  \<open>str.isspace\<close> holds of the code points 9 to 13, 28 to 32, 133 and 160;
  \<open>str.isdecimal\<close> holds of the ten ASCII digits, and \<open>str.isdigit\<close> holds of
  these and of the superscript digits U+00B2, U+00B3 and U+00B9, which \<open>int\<close>
  does not accept.
\<close>

definition isspace :: "char \<Rightarrow> bool" where
  "isspace c =
     (let n = (of_char c :: nat)
      in (9 \<le> n \<and> n \<le> 13) \<or> (28 \<le> n \<and> n \<le> 32) \<or> n = 133 \<or> n = 160)"

definition isdecimal :: "char \<Rightarrow> bool" where
  "isdecimal c = (let n = (of_char c :: nat) in 48 \<le> n \<and> n \<le> 57)"

definition isdigit :: "char \<Rightarrow> bool" where
  "isdigit c = (isdecimal c \<or> c = CHR 0xB2 \<or> c = CHR 0xB3 \<or> c = CHR 0xB9)"

definition strip :: "string \<Rightarrow> string" where
  "strip s = rev (dropWhile isspace (rev (dropWhile isspace s)))"

definition str_isdigit :: "string \<Rightarrow> bool" where
  "str_isdigit s = (s \<noteq> [] \<and> list_all isdigit s)"

fun split :: "char \<Rightarrow> string \<Rightarrow> string list" where
  "split sep [] = [[]]"
| "split sep (c # cs) =
     (if c = sep then [] # split sep cs
      else (case split sep cs of
              [] \<Rightarrow> [[c]]
            | tok # toks \<Rightarrow> (c # tok) # toks))"

definition digit_value :: "char \<Rightarrow> int" where
  "digit_value c = int (of_char c) - 48"

text \<open>
  \<open>int(s)\<close> on the strings that reach it here, those whose stripped text passes
  \<open>isdigit\<close>: surrounding white space is ignored, a text of decimal digits is read
  in base 10, and anything else raises \<open>ValueError\<close>. The white space of \<open>int\<close>
  is that of \<open>strip\<close> without the four separators 28 to 31.
\<close>

definition int_space :: "char \<Rightarrow> bool" where
  "int_space c = (isspace c \<and> \<not> (28 \<le> (of_char c :: nat) \<and> (of_char c :: nat) \<le> 31))"

definition py_int :: "string \<Rightarrow> error + int" where
  "py_int s =
     (let t = rev (dropWhile int_space (rev (dropWhile int_space s)))
      in if t \<noteq> [] \<and> list_all isdecimal t
         then Inr (foldl (\<lambda>acc c. 10 * acc + digit_value c) 0 t)
         else Inl ValueError)"

text \<open>The comprehension \<open>[int(d) for d in tokens if d.strip().isdigit()]\<close>.\<close>

fun ints_of_tokens :: "string list \<Rightarrow> error + int list" where
  "ints_of_tokens [] = Inr []"
| "ints_of_tokens (d # ds) =
     (if str_isdigit (strip d)
      then (case py_int d of
              Inl e \<Rightarrow> Inl e
            | Inr n \<Rightarrow> (case ints_of_tokens ds of
                          Inl e \<Rightarrow> Inl e
                        | Inr ns \<Rightarrow> Inr (n # ns)))
      else ints_of_tokens ds)"

section \<open>Booking rows and their expansion\<close>

text \<open>
  \<open>slot\<close> holds the five columns that \<open>_expand_occurrences\<close> reads, with the two
  timestamps and the \<open>until\<close> date already parsed. \<open>recurrence_until = None\<close> stands
  for a column that is null or the empty string (both are falsy in the source).
\<close>

record slot =
  start_dt :: datetime
  end_dt :: datetime
  recurrence_type :: "string option"
  recurrence_days :: "string option"
  recurrence_until :: "date option"

type_synonym occurrence = "datetime \<times> datetime"

text \<open>Lines 42 and 43: the numbers of the \<open>recurrence_days\<close> column.\<close>

definition day_nums :: "'a slot_scheme \<Rightarrow> error + int list" where
  "day_nums booking =
     (let days_raw = (case recurrence_days booking of Some s \<Rightarrow> s | None \<Rightarrow> [])
      in ints_of_tokens (split CHR '','' days_raw))"

definition included :: "string \<Rightarrow> int list \<Rightarrow> date \<Rightarrow> bool" where
  "included rec_type nums cursor =
     (if rec_type = ''daily'' then True
      else if rec_type = ''weekly'' then weekday cursor \<in> set nums
      else if rec_type = ''monthly'' then date_day cursor \<in> set nums
      else False)"

text \<open>
  One round of the loop: the occurrence of the date \<open>cursor\<close> is appended when the
  date is in the window and passes the test of the kind; computing its end may
  overflow. Then the cursor moves to the next day, which overflows on 9999-12-31.
\<close>

function expand_loop ::
  "string \<Rightarrow> int list \<Rightarrow> datetime \<Rightarrow> timedelta \<Rightarrow> date \<Rightarrow> date \<Rightarrow> date
     \<Rightarrow> occurrence list \<Rightarrow> error + occurrence list" where
  "expand_loop rec_type nums start duration window_start limit cursor results =
     (if cursor \<le> limit
      then (case (if cursor \<ge> window_start \<and> included rec_type nums cursor
                  then (case datetime_add (combine cursor (dt_time start)) duration of
                          Inl e \<Rightarrow> Inl e
                        | Inr occ_end \<Rightarrow>
                            Inr (results @ [(combine cursor (dt_time start), occ_end)]))
                  else Inr results) of
              Inl e \<Rightarrow> Inl e
            | Inr results' \<Rightarrow>
                (case date_add cursor 1 of
                   Inl e \<Rightarrow> Inl e
                 | Inr cursor' \<Rightarrow>
                     expand_loop rec_type nums start duration window_start limit cursor'
                       results'))
      else Inr results)"
  by pat_completeness auto
termination
  by (relation "measure (\<lambda>(rec_type, nums, start, duration, window_start, limit,
                             cursor, results). nat (limit + 1 - cursor))")
     (auto simp: date_add_def Let_def split: if_splits)

declare expand_loop.simps [simp del]

definition expand_occurrences ::
  "'a slot_scheme \<Rightarrow> date \<Rightarrow> date \<Rightarrow> error + occurrence list" where
  "expand_occurrences booking window_start window_end =
     (let start = start_dt booking;
          end = end_dt booking;
          duration = end - start
      in case recurrence_type booking of
           None \<Rightarrow>
             (if window_start \<le> dt_date start \<and> dt_date start \<le> window_end
              then Inr [(start, end)]
              else Inr [])
         | Some rec_type \<Rightarrow>
             (let until = (case recurrence_until booking of
                             Some u \<Rightarrow> u
                           | None \<Rightarrow> window_end)
              in case day_nums booking of
                   Inl e \<Rightarrow> Inl e
                 | Inr nums \<Rightarrow>
                     expand_loop rec_type nums start duration window_start
                       (min until window_end) (dt_date start) []))"

section \<open>Stored rows and queries\<close>

text \<open>
  A row of the \<open>bookings\<close> table as the queries return it, joined with the
  \<open>username\<close> and \<open>full_name\<close> of its user. A table is the list of its rows in
  storage order. \<open>WHERE\<close> is a filter and \<open>ORDER BY\<close> a stable sort; the order
  of \<open>start_dt\<close> texts is the order of the timestamps they denote.
\<close>

record booking = slot +
  row_id :: int
  room_id :: int
  title :: string
  is_cancelled :: bool
  username :: string
  full_name :: string

record room =
  room_row_id :: int
  room_company_id :: int
  room_name :: string
  room_is_active :: bool

definition room_bookings :: "booking list \<Rightarrow> int \<Rightarrow> booking list" where
  "room_bookings db rid = filter (\<lambda>b. room_id b = rid \<and> \<not> is_cancelled b) db"


definition active_rooms :: "room list \<Rightarrow> int \<Rightarrow> room list" where
  "active_rooms tbl cid =
     sort_key room_name (filter (\<lambda>r. room_company_id r = cid \<and> room_is_active r) tbl)"

section \<open>Room schedule\<close>






section \<open>Conflict detection\<close>

record conflict =
  c_booking_id :: int
  c_title :: string
  c_start_dt :: datetime
  c_end_dt :: datetime
  c_username :: string
  c_full_name :: string

definition mk_conflict :: "booking \<Rightarrow> occurrence \<Rightarrow> conflict" where
  "mk_conflict ex occ =
     \<lparr>c_booking_id = row_id ex, c_title = title ex, c_start_dt = fst occ,
      c_end_dt = snd occ, c_username = username ex, c_full_name = full_name ex\<rparr>"

text \<open>The innermost loop, over the occurrences of one existing row.\<close>

fun scan_ex_occurrences ::
  "booking \<Rightarrow> datetime \<Rightarrow> datetime \<Rightarrow> occurrence list \<Rightarrow> conflict list \<Rightarrow> conflict list" where
  "scan_ex_occurrences ex p_start p_end [] conflicts = conflicts"
| "scan_ex_occurrences ex p_start p_end ((e_start, e_end) # rest) conflicts =
     scan_ex_occurrences ex p_start p_end rest
       (if p_start < e_end \<and> p_end > e_start
        then conflicts @ [mk_conflict ex (e_start, e_end)]
        else conflicts)"

text \<open>The loop over the proposed occurrences.\<close>

fun scan_proposed ::
  "booking \<Rightarrow> occurrence list \<Rightarrow> occurrence list \<Rightarrow> conflict list \<Rightarrow> conflict list" where
  "scan_proposed ex [] ex_occurrences conflicts = conflicts"
| "scan_proposed ex ((p_start, p_end) # rest) ex_occurrences conflicts =
     scan_proposed ex rest ex_occurrences
       (scan_ex_occurrences ex p_start p_end ex_occurrences conflicts)"

text \<open>
  \<open>skipped\<close> is the test \<open>exclude_booking_id and ex["id"] == exclude_booking_id\<close>:
  neither \<open>None\<close> nor 0 excludes a row.
\<close>

definition skipped :: "int option \<Rightarrow> booking \<Rightarrow> bool" where
  "skipped exclude_booking_id ex =
     (case exclude_booking_id of
        None \<Rightarrow> False
      | Some x \<Rightarrow> x \<noteq> 0 \<and> row_id ex = x)"

text \<open>The loop over the existing rows.\<close>

fun scan_existing ::
  "booking list \<Rightarrow> int option \<Rightarrow> occurrence list \<Rightarrow> date \<Rightarrow> date \<Rightarrow> conflict list
     \<Rightarrow> error + conflict list" where
  "scan_existing [] exclude_booking_id proposed win_start win_end conflicts = Inr conflicts"
| "scan_existing (ex # rest) exclude_booking_id proposed win_start win_end conflicts =
     (if skipped exclude_booking_id ex
      then scan_existing rest exclude_booking_id proposed win_start win_end conflicts
      else (case expand_occurrences ex win_start win_end of
              Inl e \<Rightarrow> Inl e
            | Inr ex_occurrences \<Rightarrow>
                scan_existing rest exclude_booking_id proposed win_start win_end
                  (scan_proposed ex proposed ex_occurrences conflicts)))"

definition win_start_of :: "datetime \<Rightarrow> date" where
  "win_start_of new_start = dt_date new_start"

definition win_end_of :: "datetime \<Rightarrow> date option \<Rightarrow> error + date" where
  "win_end_of new_start rec_until =
     (case rec_until of
        Some u \<Rightarrow> Inr u
      | None \<Rightarrow> date_add (dt_date new_start) 366)"

definition check_conflicts ::
  "booking list \<Rightarrow> int \<Rightarrow> datetime \<Rightarrow> datetime \<Rightarrow> string option \<Rightarrow> string option
     \<Rightarrow> date option \<Rightarrow> int option \<Rightarrow> error + conflict list" where
  "check_conflicts db rid start end rec_type rec_days rec_until exclude_booking_id =
     (let proposed = \<lparr>start_dt = start, end_dt = end, recurrence_type = rec_type,
                       recurrence_days = rec_days, recurrence_until = rec_until\<rparr>
      in case win_end_of start rec_until of
           Inl e \<Rightarrow> Inl e
         | Inr win_end \<Rightarrow>
             (let win_start = win_start_of start
              in case expand_occurrences proposed win_start win_end of
                   Inl e \<Rightarrow> Inl e
                 | Inr proposed_occurrences \<Rightarrow>
                     if proposed_occurrences = [] then Inr []
                     else scan_existing (room_bookings db rid) exclude_booking_id
                            proposed_occurrences win_start win_end []))"

section \<open>Free rooms\<close>

fun free_loop ::
  "booking list \<Rightarrow> room list \<Rightarrow> datetime \<Rightarrow> datetime \<Rightarrow> room list \<Rightarrow> error + room list" where
  "free_loop db [] start end free_rooms = Inr free_rooms"
| "free_loop db (r # all_rooms) start end free_rooms =
     (case check_conflicts db (room_row_id r) start end None None None None of
        Inl e \<Rightarrow> Inl e
      | Inr conflicts \<Rightarrow>
          free_loop db all_rooms start end
            (if conflicts = [] then free_rooms @ [r] else free_rooms))"

definition find_free_rooms ::
  "booking list \<Rightarrow> room list \<Rightarrow> int \<Rightarrow> datetime \<Rightarrow> datetime \<Rightarrow> error + room list" where
  "find_free_rooms db tbl cid start end = free_loop db (active_rooms tbl cid) start end []"

section \<open>The overlap relation of the specification\<close>

text \<open>
  Two occurrences overlap when each starts before the other ends (half-open
  intervals).
\<close>

definition overlaps :: "occurrence \<Rightarrow> occurrence \<Rightarrow> bool" where
  "overlaps a b = (fst a < snd b \<and> fst b < snd a)"

text \<open>The records that one existing row contributes for one proposed occurrence.\<close>

definition conflicts_of :: "booking \<Rightarrow> occurrence list \<Rightarrow> occurrence \<Rightarrow> conflict list" where
  "conflicts_of ex ex_occurrences p = map (mk_conflict ex) (filter (overlaps p) ex_occurrences)"

text \<open>
  \<open>fits b limit\<close>: the anchor of \<open>b\<close> is a timestamp of the calendar, \<open>limit\<close> is
  before 9999-12-31, and an occurrence of \<open>b\<close> on the date \<open>limit\<close> would end within
  the calendar.
\<close>

definition fits :: "'a slot_scheme \<Rightarrow> date \<Rightarrow> bool" where
  "fits b limit =
     (0 < dt_date (start_dt b) \<and> 0 < dt_date (end_dt b) \<and> limit < MAXORDINAL
      \<and> dt_date (combine limit (dt_time (start_dt b)) + (end_dt b - start_dt b)) \<le> MAXORDINAL)"

section \<open>Rows for the examples\<close>

definition mk_row ::
  "int \<Rightarrow> int \<Rightarrow> datetime \<Rightarrow> datetime \<Rightarrow> string option \<Rightarrow> string option \<Rightarrow> date option
     \<Rightarrow> booking" where
  "mk_row i r s e rt rd ru =
     \<lparr>start_dt = s, end_dt = e, recurrence_type = rt, recurrence_days = rd,
      recurrence_until = ru, row_id = i, room_id = r, title = ''meeting'',
      is_cancelled = False, username = ''user'', full_name = ''User''\<rparr>"

definition mk_room :: "int \<Rightarrow> int \<Rightarrow> string \<Rightarrow> bool \<Rightarrow> room" where
  "mk_room i c n a = \<lparr>room_row_id = i, room_company_id = c, room_name = n, room_is_active = a\<rparr>"



section \<open>Expansion: the loop in closed form\<close>

text \<open>
  Whenever the loop returns, it returns the occurrences of the dates from the cursor
  to the limit that are in the window and pass the test of the kind; it returns when
  no step leaves the calendar.
\<close>

lemma date_add_one: "date_add c 1 = Inr c' \<Longrightarrow> c' = c + 1"
  by (auto simp: date_add_def Let_def split: if_splits)

lemma datetime_add_Inr: "datetime_add t n = Inr r \<Longrightarrow> r = t + n"
  by (auto simp: datetime_add_def Let_def split: if_splits)

lemma expand_loop_Inr:
  "expand_loop rt ds st du ws lim c res = Inr out \<Longrightarrow>
     out = res @ map (\<lambda>d. (combine d (dt_time st), combine d (dt_time st) + du))
                     (filter (\<lambda>d. ws \<le> d \<and> included rt ds d) [c..lim])"
proof (induction rt ds st du ws lim c res rule: expand_loop.induct)
  case (1 rt ds st du ws lim c res)
  show ?case
  proof (cases "c \<le> lim")
    case False
    then show ?thesis using "1.prems" by (simp add: expand_loop.simps)
  next
    case True
    then have u: "[c..lim] = c # [c + 1..lim]" by (simp add: upto_rec1)
    let ?step = "if c \<ge> ws \<and> included rt ds c
                  then (case datetime_add (combine c (dt_time st)) du of
                          Inl e \<Rightarrow> Inl e
                        | Inr occ_end \<Rightarrow> Inr (res @ [(combine c (dt_time st), occ_end)]))
                  else Inr res"
    from "1.prems" True obtain res' c' where
      s: "?step = Inr res'" and d: "date_add c 1 = Inr c'"
      and r: "expand_loop rt ds st du ws lim c' res' = Inr out"
      by (subst (asm) expand_loop.simps) (auto split: sum.splits if_splits)
    have c': "c' = c + 1" using d by (rule date_add_one)
    have res': "res' = res @ map (\<lambda>d. (combine d (dt_time st), combine d (dt_time st) + du))
                              (filter (\<lambda>d. ws \<le> d \<and> included rt ds d) [c])"
      using s by (auto split: if_splits sum.splits dest: datetime_add_Inr)
    have "out = res' @ map (\<lambda>d. (combine d (dt_time st), combine d (dt_time st) + du))
                     (filter (\<lambda>d. ws \<le> d \<and> included rt ds d) [c'..lim])"
      by (rule "1.IH" [OF True s d r])
    then show ?thesis unfolding res' c' u by simp
  qed
qed

lemma dt_date_mono: "a \<le> b \<Longrightarrow> dt_date a \<le> dt_date b"
  by (simp add: dt_date_def zdiv_mono1)

lemma combine_mono: "c \<le> d \<Longrightarrow> combine c tm + du \<le> combine d tm + du"
  by (simp add: combine_def)

lemma expand_loop_total:
  assumes "0 \<le> c" "lim < c \<or> lim < MAXORDINAL"
    and "0 < dt_date (combine c (dt_time st) + du)"
    and "dt_date (combine lim (dt_time st) + du) \<le> MAXORDINAL"
  shows "\<exists>out. expand_loop rt ds st du ws lim c res = Inr out"
  using assms
proof (induction rt ds st du ws lim c res rule: expand_loop.induct)
  case (1 rt ds st du ws lim c res)
  show ?case
  proof (cases "c \<le> lim")
    case False
    then show ?thesis by (simp add: expand_loop.simps)
  next
    case True
    let ?occ = "combine c (dt_time st)"
    have lo: "0 < dt_date (?occ + du)" using "1.prems"(3) .
    have "dt_date (?occ + du) \<le> dt_date (combine lim (dt_time st) + du)"
      by (rule dt_date_mono [OF combine_mono [OF True]])
    then have hi: "dt_date (?occ + du) \<le> MAXORDINAL" using "1.prems"(4) by simp
    have da: "datetime_add ?occ du = Inr (?occ + du)"
      using lo hi by (simp add: datetime_add_def Let_def)
    define res' where "res' = (if c \<ge> ws \<and> included rt ds c then res @ [(?occ, ?occ + du)] else res)"
    have s: "(if c \<ge> ws \<and> included rt ds c
              then (case datetime_add ?occ du of
                      Inl e \<Rightarrow> Inl e
                    | Inr occ_end \<Rightarrow> Inr (res @ [(?occ, occ_end)]))
              else Inr res) = Inr res'"
      by (simp add: da res'_def)
    have lim: "lim < MAXORDINAL" using True "1.prems"(2) by simp
    have d: "date_add c 1 = Inr (c + 1)"
      using "1.prems"(1) True lim by (simp add: date_add_def Let_def)
    have lo': "0 < dt_date (combine (c + 1) (dt_time st) + du)"
    proof -
      have "dt_date (?occ + du) \<le> dt_date (combine (c + 1) (dt_time st) + du)"
        by (rule dt_date_mono [OF combine_mono]) simp
      then show ?thesis using lo by simp
    qed
    have "\<exists>out. expand_loop rt ds st du ws lim (c + 1) res' = Inr out"
      by (rule "1.IH" [OF True s d]) (use "1.prems" lim lo' in simp_all)
    then show ?thesis
      using True by (subst expand_loop.simps) (simp only: s d if_True sum.case)
  qed
qed

lemma expand_loop_eq:
  assumes "0 \<le> c" "lim < c \<or> lim < MAXORDINAL"
    and "0 < dt_date (combine c (dt_time st) + du)"
    and "dt_date (combine lim (dt_time st) + du) \<le> MAXORDINAL"
  shows "expand_loop rt ds st du ws lim c res =
     Inr (res @ map (\<lambda>d. (combine d (dt_time st), combine d (dt_time st) + du))
                   (filter (\<lambda>d. ws \<le> d \<and> included rt ds d) [c..lim]))"
  using expand_loop_total [OF assms] expand_loop_Inr by metis

lemma filter_from_upto:
  "filter (\<lambda>d. ws \<le> d) [a..hi] = [max a ws..hi]"
proof (rule sorted_distinct_set_unique)
  show "sorted (filter (\<lambda>d. ws \<le> d) [a..hi])" by (rule sorted_wrt_filter) simp
  show "distinct (filter (\<lambda>d. ws \<le> d) [a..hi])" by simp
  show "sorted [max a ws..hi]" by simp
  show "distinct [max a ws..hi]" by simp
  show "set (filter (\<lambda>d. ws \<le> d) [a..hi]) = set [max a ws..hi]" by auto
qed

lemma filter_window:
  "filter (\<lambda>d. ws \<le> d \<and> P d) [a..hi] = filter P [max a ws..hi]"
proof -
  have "filter P (filter (\<lambda>d. ws \<le> d) [a..hi]) = filter (\<lambda>d. ws \<le> d \<and> P d) [a..hi]"
    by (rule filter_filter)
  then show ?thesis by (simp only: filter_from_upto)
qed

lemma sorted_starts:
  "sorted_wrt (<) (map (\<lambda>d. combine d tm) (filter P [lo..hi]))"
proof -
  have "sorted_wrt (<) (filter P [lo..hi])"
    by (rule sorted_wrt_filter) simp
  then show ?thesis
    by (simp add: sorted_wrt_map combine_def)
qed

lemma day_nums_None: "recurrence_days b = None \<Longrightarrow> day_nums b = Inr []"
  by (simp add: day_nums_def str_isdigit_def strip_def)

lemma combine_date_time: "combine (dt_date t) (dt_time t) = t"
  by (simp add: combine_def dt_date_def dt_time_def)

lemma expand_recurring_Inr:
  assumes "recurrence_type b = Some rt" "expand_occurrences b ws we = Inr occs"
  shows "\<exists>days. day_nums b = Inr days \<and>
     occs = map (\<lambda>d. (combine d (dt_time (start_dt b)),
                     combine d (dt_time (start_dt b)) + (end_dt b - start_dt b)))
            (filter (\<lambda>d. ws \<le> d \<and> included rt days d)
               [dt_date (start_dt b) ..
                min (case recurrence_until b of Some u \<Rightarrow> u | None \<Rightarrow> we) we])"
proof (cases "day_nums b")
  case (Inl e)
  then show ?thesis using assms by (simp add: expand_occurrences_def Let_def)
next
  case (Inr days)
  then have "expand_loop rt days (start_dt b) (end_dt b - start_dt b) ws
               (min (case recurrence_until b of Some u \<Rightarrow> u | None \<Rightarrow> we) we)
               (dt_date (start_dt b)) [] = Inr occs"
    using assms by (simp add: expand_occurrences_def Let_def)
  from expand_loop_Inr [OF this] Inr show ?thesis by simp
qed

lemma expand_recurring_eq:
  assumes "recurrence_type b = Some rt" "day_nums b = Inr days"
    and "fits b (min (case recurrence_until b of Some u \<Rightarrow> u | None \<Rightarrow> we) we)"
  shows "expand_occurrences b ws we =
     Inr (map (\<lambda>d. (combine d (dt_time (start_dt b)),
                     combine d (dt_time (start_dt b)) + (end_dt b - start_dt b)))
            (filter (\<lambda>d. ws \<le> d \<and> included rt days d)
               [dt_date (start_dt b) ..
                min (case recurrence_until b of Some u \<Rightarrow> u | None \<Rightarrow> we) we]))"
proof -
  let ?lim = "min (case recurrence_until b of Some u \<Rightarrow> u | None \<Rightarrow> we) we"
  have f: "0 < dt_date (start_dt b)" "0 < dt_date (end_dt b)" "?lim < MAXORDINAL"
    "dt_date (combine ?lim (dt_time (start_dt b)) + (end_dt b - start_dt b)) \<le> MAXORDINAL"
    using assms(3) by (simp_all add: fits_def)
  have lo: "0 < dt_date (combine (dt_date (start_dt b)) (dt_time (start_dt b))
                          + (end_dt b - start_dt b))"
    using f(2) by (simp add: combine_date_time)
  have "expand_loop rt days (start_dt b) (end_dt b - start_dt b) ws ?lim (dt_date (start_dt b)) []
        = Inr ([] @ map (\<lambda>d. (combine d (dt_time (start_dt b)),
                     combine d (dt_time (start_dt b)) + (end_dt b - start_dt b)))
            (filter (\<lambda>d. ws \<le> d \<and> included rt days d) [dt_date (start_dt b) .. ?lim]))"
    by (rule expand_loop_eq) (use f lo in simp_all)
  then show ?thesis
    using assms(1,2) by (simp add: expand_occurrences_def Let_def)
qed

lemma expand_sorted:
  assumes "expand_occurrences b ws we = Inr occs"
  shows "sorted_wrt (<) (map fst occs)"
proof (cases "recurrence_type b")
  case None
  then show ?thesis using assms
    by (auto simp: expand_occurrences_def Let_def split: if_splits)
next
  case (Some rt)
  from expand_recurring_Inr [OF Some assms] obtain days where
    "occs = map (\<lambda>d. (combine d (dt_time (start_dt b)),
                     combine d (dt_time (start_dt b)) + (end_dt b - start_dt b)))
            (filter (\<lambda>d. ws \<le> d \<and> included rt days d)
               [dt_date (start_dt b) ..
                min (case recurrence_until b of Some u \<Rightarrow> u | None \<Rightarrow> we) we])"
    by blast
  then have "map fst occs = map (\<lambda>d. combine d (dt_time (start_dt b)))
            (filter (\<lambda>d. ws \<le> d \<and> included rt days d)
               [dt_date (start_dt b) ..
                min (case recurrence_until b of Some u \<Rightarrow> u | None \<Rightarrow> we) we])"
    by (simp add: comp_def)
  then show ?thesis by (simp only: sorted_starts)
qed

lemmas str_defs = day_nums_def str_isdigit_def strip_def isdigit_def isdecimal_def isspace_def
  py_int_def int_space_def digit_value_def

lemmas eval_defs = expand_occurrences_def expand_loop.simps date_add_def datetime_add_def
  MAXORDINAL_def included_def weekday_def
  dt_date_def dt_time_def combine_def win_start_of_def win_end_of_def room_bookings_def
  skipped_def mk_row_def Let_def

lemmas cal_defs = ymd2ord_def days_before_year_def days_before_month_def is_leap_def

section \<open>Non-recurring definitions\<close>

text \<open>
  C5. A definition without recurrence expands to the one-element list of its anchor
  when the anchor's date lies in the window, and to the empty list otherwise; no
  error is possible.
\<close>

theorem expand_non_recurring:
  "recurrence_type b = None \<Longrightarrow> window_start \<le> window_end \<Longrightarrow>
   expand_occurrences b window_start window_end =
     Inr (if window_start \<le> dt_date (start_dt b) \<and> dt_date (start_dt b) \<le> window_end
          then [(start_dt b, end_dt b)] else [])"
  by (simp add: expand_occurrences_def Let_def)

theorem expand_non_recurring_witness:
  "(10::int) \<le> 20 \<and>
   expand_occurrences \<lparr>start_dt = 15 * 1440 + 600, end_dt = 15 * 1440 + 660,
       recurrence_type = None, recurrence_days = None, recurrence_until = None\<rparr> 10 20
     = Inr [(15 * 1440 + 600, 15 * 1440 + 660)]"
  using expand_non_recurring
    [of "\<lparr>start_dt = 15 * 1440 + 600, end_dt = 15 * 1440 + 660,
       recurrence_type = None, recurrence_days = None, recurrence_until = None\<rparr>" 10 20]
  by (simp add: dt_date_def)

section \<open>Recurring definitions\<close>

text \<open>
  Let a definition be daily, weekly or monthly, with an \<open>until\<close> date and a days
  column that reads as the list \<open>days\<close>, let the window be non-empty, and let the
  earlier of \<open>until\<close> and the window end be before 9999-12-31, with an occurrence on
  that date ending within the calendar. Expansion then yields, for each date from the
  later of the anchor date and the window start to the earlier of \<open>until\<close> and the
  window end that passes the test of the kind, one occurrence, in ascending order: it
  starts on that date at the anchor's time of day and ends one anchor duration later.
\<close>

lemma expand_recurring:
  assumes kind: "recurrence_type b = Some rt"
      "rt = ''daily'' \<or> rt = ''weekly'' \<or> rt = ''monthly''"
    and until: "recurrence_until b = Some until"
    and days: "day_nums b = Inr days"
    and win: "window_start \<le> window_end"
    and fits: "fits b (min until window_end)"
  shows "\<exists>occs. expand_occurrences b window_start window_end = Inr occs \<and>
     occs = map (\<lambda>d. (combine d (dt_time (start_dt b)),
                       combine d (dt_time (start_dt b)) + (end_dt b - start_dt b)))
              (filter (\<lambda>d. rt = ''daily''
                          \<or> rt = ''weekly'' \<and> weekday d \<in> set days
                          \<or> rt = ''monthly'' \<and> date_day d \<in> set days)
                 [max (dt_date (start_dt b)) window_start .. min until window_end]) \<and>
     sorted_wrt (<) (map fst occs)"
proof -
  let ?a = "dt_date (start_dt b)"
  let ?hi = "min until window_end"
  let ?inc = "\<lambda>d. rt = ''daily'' \<or> rt = ''weekly'' \<and> weekday d \<in> set days
                   \<or> rt = ''monthly'' \<and> date_day d \<in> set days"
  let ?mk = "\<lambda>d. (combine d (dt_time (start_dt b)),
                   combine d (dt_time (start_dt b)) + (end_dt b - start_dt b))"
  have inc: "included rt days = ?inc"
    using kind(2) by (auto simp: included_def fun_eq_iff)
  have f: "fits b (min (case recurrence_until b of Some u \<Rightarrow> u | None \<Rightarrow> window_end) window_end)"
    using fits until by simp
  have "expand_occurrences b window_start window_end
        = Inr (map ?mk (filter (\<lambda>d. window_start \<le> d \<and> ?inc d) [?a..?hi]))"
    unfolding expand_recurring_eq [OF kind(1) days f] inc until by simp
  also have "filter (\<lambda>d. window_start \<le> d \<and> ?inc d) [?a..?hi]
             = filter ?inc [max ?a window_start..?hi]"
    by (rule filter_window)
  finally have ex: "expand_occurrences b window_start window_end
            = Inr (map ?mk (filter ?inc [max ?a window_start..?hi]))" .
  have "sorted_wrt (<) (map fst (map ?mk (filter ?inc [max ?a window_start..?hi])))"
    by (rule expand_sorted [OF ex])
  then show ?thesis using ex by blast
qed

text \<open>
  C2. A daily definition anchored on 9999-12-30 with \<open>until\<close> 9999-12-31, expanded
  over the window of these two days: the loop appends both occurrences and then
  moves the cursor past 9999-12-31, the last date of the library, which raises
  \<open>OverflowError\<close>. No list is returned.
\<close>

theorem expand_until_last_day_raises:
  "ymd2ord 9999 12 30 \<le> ymd2ord 9999 12 31 \<and> ymd2ord 9999 12 31 = MAXORDINAL
   \<and> expand_occurrences
       \<lparr>start_dt = combine (ymd2ord 9999 12 30) 600, end_dt = combine (ymd2ord 9999 12 30) 660,
        recurrence_type = Some ''daily'', recurrence_days = None,
        recurrence_until = Some (ymd2ord 9999 12 31)\<rparr>
       (ymd2ord 9999 12 30) (ymd2ord 9999 12 31)
     = Inl OverflowError"
  by (simp add: cal_defs eval_defs str_defs)

section \<open>Defensive cases\<close>

text \<open>
  C6. Expansion raises in the defensive cases. A daily definition whose days column
  is the one character U+00B2 raises \<open>ValueError\<close> when the window starts after
  it ends, and when \<open>until\<close> is before the anchor date: the days column is read before
  the loop. A definition of the unknown kind \<open>yearly\<close> whose \<open>until\<close> and window end
  are 9999-12-31 raises \<open>OverflowError\<close>: the loop visits every date up to the limit
  and then steps past the last date of the library.
\<close>

theorem expand_defensive_raises:
  "ymd2ord 2024 1 15 < ymd2ord 2024 1 17
   \<and> expand_occurrences
       \<lparr>start_dt = combine (ymd2ord 2024 1 15) 600, end_dt = combine (ymd2ord 2024 1 15) 660,
        recurrence_type = Some ''daily'', recurrence_days = Some [CHR 0xB2],
        recurrence_until = Some (ymd2ord 2024 1 17)\<rparr>
       (ymd2ord 2024 1 17) (ymd2ord 2024 1 15)
     = Inl ValueError
   \<and> expand_occurrences
       \<lparr>start_dt = combine (ymd2ord 2024 1 15) 600, end_dt = combine (ymd2ord 2024 1 15) 660,
        recurrence_type = Some ''daily'', recurrence_days = Some [CHR 0xB2],
        recurrence_until = Some (ymd2ord 2024 1 10)\<rparr>
       (ymd2ord 2024 1 15) (ymd2ord 2024 1 17)
     = Inl ValueError
   \<and> expand_occurrences
       \<lparr>start_dt = combine (ymd2ord 9999 12 30) 600, end_dt = combine (ymd2ord 9999 12 30) 660,
        recurrence_type = Some ''yearly'', recurrence_days = None,
        recurrence_until = Some (ymd2ord 9999 12 31)\<rparr>
       (ymd2ord 9999 12 30) (ymd2ord 9999 12 31)
     = Inl OverflowError"
  by (simp add: cal_defs eval_defs str_defs)

section \<open>The calendar from January to March\<close>

text \<open>
  The conversion of an ordinal to year, month and day, worked out for the dates of a
  year up to its 31 March: the year is split into its 400-, 100-, 4- and 1-year cycles.
\<close>

lemma year_cycles:
  fixes Y :: int
  assumes "0 \<le> Y"
  obtains a b c e where "Y = 400 * a + 100 * b + 4 * c + e"
    "0 \<le> a" "0 \<le> b" "b \<le> 3" "0 \<le> c" "c \<le> 24" "0 \<le> e" "e \<le> 3"
proof
  let ?a = "Y div 400" and ?r = "Y mod 400"
  let ?b = "?r div 100" and ?r' = "?r mod 100"
  let ?c = "?r' div 4" and ?e = "?r' mod 4"
  show "Y = 400 * ?a + 100 * ?b + 4 * ?c + ?e" by simp
  show "0 \<le> ?a" using assms by simp
  show "0 \<le> ?b" by simp
  show "?b \<le> 3" by simp
  show "0 \<le> ?c" by simp
  show "?c \<le> 24" by simp
  show "0 \<le> ?e" by simp
  show "?e \<le> 3" by simp
qed

lemma divmod_step:
  fixes q r m :: int
  assumes "0 \<le> r" "r < m"
  shows "(m * q + r) div m = q" "(m * q + r) mod m = r"
  using assms by (auto intro: int_div_pos_eq int_mod_pos_eq)

lemma month_tables: "DAYS_BEFORE_MONTH 1 = 0" "DAYS_BEFORE_MONTH 2 = 31" "DAYS_BEFORE_MONTH 3 = 59"
  "DAYS_BEFORE_MONTH 4 = 90" "DAYS_IN_MONTH 1 = 31" "DAYS_IN_MONTH 2 = 28" "DAYS_IN_MONTH 3 = 31"
  by simp_all

lemma div_between:
  fixes n m q :: int
  assumes "m * q \<le> n" "n < m * q + m"
  shows "n div m = q"
  by (rule int_div_pos_eq [where r = "n - m * q"]) (use assms in auto)

lemma month_day_early:
  fixes k :: int
  assumes "0 \<le> k" "k \<le> 89 + (if L then 1 else 0)"
  shows "(let month = (k + 50) div 32;
              preceding = DAYS_BEFORE_MONTH month + (if month > 2 \<and> L then 1 else 0)
          in if preceding > k
             then let month = month - 1;
                      preceding = preceding
                        - (DAYS_IN_MONTH month + (if month = 2 \<and> L then 1 else 0))
                  in (yr, month, k - preceding + 1)
             else (yr, month, k - preceding + 1))
         = (if k < 31 then (yr, 1, k + 1)
            else if k < 59 + (if L then 1 else 0) then (yr, 2, k - 30)
            else (yr, 3, k - 58 - (if L then 1 else 0)))"
proof -
  have ub: "k \<le> 90" using assms(2) by (cases L) simp_all
  consider "k < 14" | "14 \<le> k" "k < 31" | "31 \<le> k" "k < 46"
    | "46 \<le> k" "k < 59 + (if L then 1 else 0)"
    | "59 + (if L then 1 else 0) \<le> k" "k < 78" | "78 \<le> k" by linarith
  then show ?thesis
  proof cases
    case 1
    have "(k + 50) div 32 = 1" by (rule div_between) (use 1 assms(1) in simp_all)
    then show ?thesis using 1 assms(1) by (simp add: Let_def month_tables)
  next
    case 2
    have "(k + 50) div 32 = 2" by (rule div_between) (use 2 in simp_all)
    then show ?thesis using 2 by (simp add: Let_def month_tables)
  next
    case 3
    have "(k + 50) div 32 = 2" by (rule div_between) (use 3 in simp_all)
    then show ?thesis using 3 by (cases L) (simp_all add: Let_def month_tables)
  next
    case 4
    have le: "k \<le> 59" using 4(2) by (cases L) simp_all
    have "(k + 50) div 32 = 3" by (rule div_between) (use le 4(1) in simp_all)
    then show ?thesis using 4 by (cases L) (simp_all add: Let_def month_tables)
  next
    case 5
    have ge: "59 \<le> k" using 5(1) by (cases L) simp_all
    have "(k + 50) div 32 = 3" by (rule div_between) (use ge 5(2) in simp_all)
    then show ?thesis using 5 by (cases L) (simp_all add: Let_def month_tables)
  next
    case 6
    have "(k + 50) div 32 = 4" by (rule div_between) (use 6 ub in simp_all)
    then show ?thesis using 6 assms(2) by (cases L) (simp_all add: Let_def month_tables)
  qed
qed

lemma mod_zero_top:
  fixes v m :: int
  assumes "1 \<le> v" "v \<le> m"
  shows "(v mod m = 0) = (v = m)"
proof (cases "v = m")
  case True
  then show ?thesis by simp
next
  case False
  then have "v < m" using assms by simp
  then have "v mod m = v" using assms by simp
  then show ?thesis using assms False by simp
qed

lemma leap_cycles:
  fixes y a b c e :: int
  assumes Y: "y - 1 = 400 * a + 100 * b + 4 * c + e"
    and bnd: "0 \<le> b" "b \<le> 3" "0 \<le> c" "c \<le> 24" "0 \<le> e" "e \<le> 3"
  shows "is_leap y = (e = 3 \<and> (c \<noteq> 24 \<or> b = 3))"
proof -
  have e4: "y = 4 * (100 * a + 25 * b + c) + (e + 1)" using Y by simp
  have e100: "y = 100 * (4 * a + b) + (4 * c + e + 1)" using Y by simp
  have e400: "y = 400 * a + (100 * b + 4 * c + e + 1)" using Y by simp
  have y4: "y mod 4 = (e + 1) mod 4" by (subst e4) (simp only: mod_mult_self4)
  have y100: "y mod 100 = (4 * c + e + 1) mod 100" by (subst e100) (simp only: mod_mult_self4)
  have y400: "y mod 400 = (100 * b + 4 * c + e + 1) mod 400"
    by (subst e400) (simp only: mod_mult_self4)
  have m4: "((e + 1) mod 4 = 0) = (e = 3)"
    using mod_zero_top [of "e + 1" 4] bnd by simp
  have q100: "(4 * c + e + 1 = 100) = (c = 24 \<and> e = 3)"
    using bnd(3-6) by presburger
  have q400: "(100 * b + 4 * c + e + 1 = 400) = (b = 3 \<and> c = 24 \<and> e = 3)"
    using bnd by presburger
  have m100: "((4 * c + e + 1) mod 100 = 0) = (c = 24 \<and> e = 3)"
    using mod_zero_top [of "4 * c + e + 1" 100] bnd unfolding q100 by simp
  have m400: "((100 * b + 4 * c + e + 1) mod 400 = 0) = (b = 3 \<and> c = 24 \<and> e = 3)"
    using mod_zero_top [of "100 * b + 4 * c + e + 1" 400] bnd unfolding q400 by simp
  show ?thesis unfolding is_leap_def y4 y100 y400 m4 m100 m400 by blast
qed


lemma days_before_year_cycles:
  fixes y a b c e :: int
  assumes Y: "y - 1 = 400 * a + 100 * b + 4 * c + e"
    and bnd: "0 \<le> b" "b \<le> 3" "0 \<le> c" "c \<le> 24" "0 \<le> e" "e \<le> 3"
  shows "days_before_year y = 146097 * a + 36524 * b + 1461 * c + 365 * e"
proof -
  have d4: "(y - 1) div 4 = 100 * a + 25 * b + c"
    by (rule int_div_pos_eq [where r = e]) (use Y bnd in auto)
  have d100: "(y - 1) div 100 = 4 * a + b"
    by (rule int_div_pos_eq [where r = "4 * c + e"]) (use Y bnd in auto)
  have d400: "(y - 1) div 400 = a"
    by (rule int_div_pos_eq [where r = "100 * b + 4 * c + e"]) (use Y bnd in auto)
  show ?thesis
    unfolding days_before_year_def Let_def d4 d100 d400 using Y by simp
qed

lemma ord2ymd_early:
  fixes y k :: int
  assumes y: "1 \<le> y" and k: "0 \<le> k" "k \<le> 89 + (if is_leap y then 1 else 0)"
  shows "ord2ymd (days_before_year y + k + 1)
         = (if k < 31 then (y, 1, k + 1)
            else if k < 59 + (if is_leap y then 1 else 0) then (y, 2, k - 30)
            else (y, 3, k - 58 - (if is_leap y then 1 else 0)))"
proof -
  from y have "0 \<le> y - 1" by simp
  then obtain a b c e where Y: "y - 1 = 400 * a + 100 * b + 4 * c + e"
    and bnd: "0 \<le> b" "b \<le> 3" "0 \<le> c" "c \<le> 24" "0 \<le> e" "e \<le> 3"
    by (rule year_cycles)
  have ub: "k \<le> 90" using k(2) by (cases "is_leap y") simp_all
  have B: "days_before_year y = 146097 * a + 36524 * b + 1461 * c + 365 * e"
    by (rule days_before_year_cycles [OF Y bnd])
  have leap: "is_leap y = (e = 3 \<and> (c \<noteq> 24 \<or> b = 3))"
    by (rule leap_cycles [OF Y bnd])
  define R3 where "R3 = 365 * e + k"
  define R2 where "R2 = 1461 * c + R3"
  define R1 where "R1 = 36524 * b + R2"
  have n0: "days_before_year y + k + 1 - 1 = 146097 * a + R1"
    using B by (simp add: R1_def R2_def R3_def)
  have t3: "0 \<le> R3" "R3 \<le> 1185" using bnd k(1) ub by (simp_all add: R3_def)
  have t2: "0 \<le> R2" "R2 \<le> 36249" using bnd t3 by (simp_all add: R2_def)
  have t1: "0 \<le> R1" "R1 \<le> 145821" using bnd t2 by (simp_all add: R1_def)
  have b3: "0 \<le> R3" "R3 < 1461" using t3 by simp_all
  have b2: "0 \<le> R2" "R2 < 36524" using t2 by simp_all
  have b1: "0 \<le> R1" "R1 < 146097" using t1 by simp_all
  have s1: "(146097 * a + R1) div 146097 = a" "(146097 * a + R1) mod 146097 = R1"
    by (rule divmod_step [OF b1])+
  have s2: "R1 div 36524 = b" "R1 mod 36524 = R2"
    unfolding R1_def by (rule divmod_step [OF b2])+
  have s3: "R2 div 1461 = c" "R2 mod 1461 = R3"
    unfolding R2_def by (rule divmod_step [OF b3])+
  have s4: "R3 div 365 = e" "R3 mod 365 = k"
    unfolding R3_def by (rule divmod_step; use k(1) ub in linarith)+
  have yr: "a * 400 + 1 + b * 100 + c * 4 + e = y" using Y by simp
  have ne: "\<not> (e = 4 \<or> b = 4)" using bnd by auto
  have "ord2ymd (days_before_year y + k + 1) =
     (let leapyear = is_leap y;
          month = (k + 50) div 32;
          preceding = DAYS_BEFORE_MONTH month + (if month > 2 \<and> leapyear then 1 else 0)
      in if preceding > k
         then let month = month - 1;
                  preceding = preceding
                    - (DAYS_IN_MONTH month + (if month = 2 \<and> leapyear then 1 else 0))
              in (y, month, k - preceding + 1)
         else (y, month, k - preceding + 1))"
    unfolding ord2ymd_def n0
    by (simp only: Let_def s1 s2 s3 s4 yr ne if_False leap)
  also have "\<dots> = (if k < 31 then (y, 1, k + 1)
            else if k < 59 + (if is_leap y then 1 else 0) then (y, 2, k - 30)
            else (y, 3, k - 58 - (if is_leap y then 1 else 0)))"
    using month_day_early [OF k, of y] by (simp only: Let_def)
  finally show ?thesis .
qed

lemma ymd2ord_january: "ymd2ord y 1 d = days_before_year y + d"
  by (simp add: ymd2ord_def days_before_month_def)

lemma ymd2ord_march: "ymd2ord y 3 d = days_before_year y + 59 + (if is_leap y then 1 else 0) + d"
  by (simp add: ymd2ord_def days_before_month_def)

lemma date_day_early:
  fixes y n :: int
  assumes y: "1 \<le> y" and n: "days_before_year y + 1 \<le> n" "n \<le> ymd2ord y 3 31"
  shows "(date_day n = 31) = (n = ymd2ord y 1 31 \<or> n = ymd2ord y 3 31)"
proof -
  define k where "k = n - days_before_year y - 1"
  have n_eq: "n = days_before_year y + k + 1" by (simp add: k_def)
  have k: "0 \<le> k" "k \<le> 89 + (if is_leap y then 1 else 0)"
    using n by (simp_all add: k_def ymd2ord_march)
  have "date_day n = snd (snd (ord2ymd (days_before_year y + k + 1)))"
    by (simp add: date_day_def n_eq)
  also have "\<dots> = (if k < 31 then k + 1
            else if k < 59 + (if is_leap y then 1 else 0) then k - 30
            else k - 58 - (if is_leap y then 1 else 0))"
    unfolding ord2ymd_early [OF y k] by simp
  finally have dd: "date_day n = (if k < 31 then k + 1
            else if k < 59 + (if is_leap y then 1 else 0) then k - 30
            else k - 58 - (if is_leap y then 1 else 0))" .
  have a: "(date_day n = 31) = (k = 30 \<or> k = 89 + (if is_leap y then 1 else 0))"
    unfolding dd using k by (cases "is_leap y") auto
  have b: "(n = ymd2ord y 1 31) = (k = 30)"
    by (auto simp: ymd2ord_january k_def)
  have c: "(n = ymd2ord y 3 31) = (k = 89 + (if is_leap y then 1 else 0))"
    by (auto simp: ymd2ord_march k_def)
  show ?thesis unfolding a b c ..
qed

lemma dt_date_combine: "dt_date (combine d (dt_time s)) = d"
  by (simp add: dt_date_def combine_def dt_time_def)

section \<open>Monthly definitions and short months\<close>

text \<open>
  C9. A monthly definition with the days 31, anchored on a day of January of a year
  and running until 31 March of that year, whose occurrences up to 31 March lie
  within the calendar, expanded over the window from its anchor date to 31 March, has
  exactly two occurrences, on 31 January and on 31 March: February has none. In
  general a monthly definition whose occurrences up to the limit lie within the
  calendar expands without error, and each of its occurrences falls on a date whose
  day of the month is among its days.
\<close>

theorem monthly_31_skips_february:
  assumes y: "1 \<le> y" and d0: "1 \<le> d0" "d0 \<le> 31"
    and b: "recurrence_type b = Some ''monthly''" "day_nums b = Inr [31]"
      "recurrence_until b = Some (ymd2ord y 3 31)"
      "dt_date (start_dt b) = ymd2ord y 1 d0"
      "fits b (ymd2ord y 3 31)"
    and b': "recurrence_type b' = Some ''monthly''" "day_nums b' = Inr days"
      "fits b' (min (case recurrence_until b' of Some u \<Rightarrow> u | None \<Rightarrow> window_end)
                    window_end)"
  shows "expand_occurrences b (ymd2ord y 1 d0) (ymd2ord y 3 31) =
           Inr (map (\<lambda>d. (combine d (dt_time (start_dt b)),
                           combine d (dt_time (start_dt b)) + (end_dt b - start_dt b)))
                  [ymd2ord y 1 31, ymd2ord y 3 31])
         \<and> (\<exists>occs. expand_occurrences b' window_start window_end = Inr occs \<and>
               list_all (\<lambda>occ. date_day (dt_date (fst occ)) \<in> set days) occs)"
proof
  let ?lo = "ymd2ord y 1 d0" and ?hi = "ymd2ord y 3 31"
  have lohi: "?lo \<le> ?hi" using d0 by (simp add: ymd2ord_january ymd2ord_march)
  have inc: "included ''monthly'' [31] = (\<lambda>d. date_day d = 31)"
    by (simp add: included_def fun_eq_iff)
  have flt: "filter (\<lambda>d. ?lo \<le> d \<and> date_day d = 31) [?lo..?hi] = [ymd2ord y 1 31, ?hi]"
  proof (rule sorted_distinct_set_unique)
    show "sorted (filter (\<lambda>d. ?lo \<le> d \<and> date_day d = 31) [?lo..?hi])"
      by (rule sorted_wrt_filter) simp
    show "distinct (filter (\<lambda>d. ?lo \<le> d \<and> date_day d = 31) [?lo..?hi])" by simp
    show "sorted [ymd2ord y 1 31, ?hi]" by (simp add: ymd2ord_january ymd2ord_march)
    show "distinct [ymd2ord y 1 31, ?hi]" by (simp add: ymd2ord_january ymd2ord_march)
    show "set (filter (\<lambda>d. ?lo \<le> d \<and> date_day d = 31) [?lo..?hi]) = set [ymd2ord y 1 31, ?hi]"
    proof (intro set_eqI iffI)
      fix n assume "n \<in> set (filter (\<lambda>d. ?lo \<le> d \<and> date_day d = 31) [?lo..?hi])"
      then have n: "?lo \<le> n" "n \<le> ?hi" "date_day n = 31" by auto
      then have "days_before_year y + 1 \<le> n" using d0 by (simp add: ymd2ord_january)
      from date_day_early [OF y this n(2)] n(3)
      show "n \<in> set [ymd2ord y 1 31, ?hi]" by simp
    next
      fix n assume "n \<in> set [ymd2ord y 1 31, ?hi]"
      then have n: "n = ymd2ord y 1 31 \<or> n = ?hi" by simp
      then have r: "?lo \<le> n" "n \<le> ?hi"
        using d0 by (auto simp: ymd2ord_january ymd2ord_march)
      then have "days_before_year y + 1 \<le> n" using d0 by (simp add: ymd2ord_january)
      from date_day_early [OF y this r(2)] n have "date_day n = 31" by simp
      then show "n \<in> set (filter (\<lambda>d. ?lo \<le> d \<and> date_day d = 31) [?lo..?hi])"
        using r by simp
    qed
  qed
  have f: "fits b (min (case recurrence_until b of Some u \<Rightarrow> u | None \<Rightarrow> ?hi) ?hi)"
    using b(3,5) by simp
  show "expand_occurrences b ?lo ?hi =
           Inr (map (\<lambda>d. (combine d (dt_time (start_dt b)),
                           combine d (dt_time (start_dt b)) + (end_dt b - start_dt b)))
                  [ymd2ord y 1 31, ?hi])"
    unfolding expand_recurring_eq [OF b(1,2) f] inc b(3,4) by (simp only: flt option.case min.idem)
next
  show "\<exists>occs. expand_occurrences b' window_start window_end = Inr occs \<and>
               list_all (\<lambda>occ. date_day (dt_date (fst occ)) \<in> set days) occs"
    unfolding expand_recurring_eq [OF b']
    by (simp add: list_all_iff dt_date_combine included_def)
qed

theorem monthly_31_skips_february_witness:
  "(1::int) \<le> 2024 \<and> (1::int) \<le> 15 \<and> (15::int) \<le> 31
   \<and> day_nums \<lparr>start_dt = 1064016600, end_dt = 1064016660,
         recurrence_type = Some ''monthly'', recurrence_days = Some ''31'',
         recurrence_until = Some 738976\<rparr> = Inr [31]
   \<and> fits \<lparr>start_dt = 1064016600, end_dt = 1064016660,
         recurrence_type = Some ''monthly'', recurrence_days = Some ''31'',
         recurrence_until = Some 738976\<rparr> 738976
   \<and> ymd2ord 2024 1 15 = 738900 \<and> ymd2ord 2024 1 31 = 738916 \<and> ymd2ord 2024 3 31 = 738976
   \<and> expand_occurrences \<lparr>start_dt = 1064016600, end_dt = 1064016660,
         recurrence_type = Some ''monthly'', recurrence_days = Some ''31'',
         recurrence_until = Some 738976\<rparr> 738900 738976
       = Inr [(1064039640, 1064039700), (1064126040, 1064126100)]"
proof -
  let ?b = "\<lparr>start_dt = 1064016600, end_dt = 1064016660,
         recurrence_type = Some ''monthly'', recurrence_days = Some ''31'',
         recurrence_until = Some 738976\<rparr>"
  have dn: "day_nums ?b = Inr [31]" by (simp add: str_defs)
  have o1: "ymd2ord 2024 1 15 = 738900" "ymd2ord 2024 1 31 = 738916" "ymd2ord 2024 3 31 = 738976"
    by (simp_all add: cal_defs)
  have sd: "dt_date (start_dt ?b) = ymd2ord 2024 1 15" by (simp add: o1 dt_date_def)
  have un: "recurrence_until ?b = Some (ymd2ord 2024 3 31)" by (simp add: o1)
  have ft: "fits ?b 738976"
    by (simp add: fits_def dt_date_def dt_time_def combine_def MAXORDINAL_def)
  have ft1: "fits ?b (ymd2ord 2024 3 31)" using ft by (simp add: o1)
  have ft2: "fits ?b (min (case recurrence_until ?b of Some u \<Rightarrow> u | None \<Rightarrow> 738976) 738976)"
    using ft by simp
  show ?thesis
    using monthly_31_skips_february [of 2024 15 ?b ?b "[31]" 738976 738900,
        OF _ _ _ _ dn un sd ft1 _ dn ft2]
    by (simp add: o1 dn ft combine_def dt_time_def)
qed

section \<open>A days column that int cannot read\<close>

text \<open>
  A weekly or monthly definition whose days column is null, empty or without a token
  that passes the filter \<open>d.strip().isdigit()\<close> expands to the empty list, as long
  as its dates lie within the calendar.
\<close>

lemma ints_of_tokens_no_digits:
  "list_all (\<lambda>tok. \<not> str_isdigit (strip tok)) toks \<Longrightarrow> ints_of_tokens toks = Inr []"
  by (induction toks) auto

lemma expand_no_digit_tokens:
  assumes kind: "recurrence_type b = Some rt" "rt = ''weekly'' \<or> rt = ''monthly''"
    and days: "recurrence_days b = None \<or> recurrence_days b = Some []
               \<or> (\<exists>s. recurrence_days b = Some s
                       \<and> list_all (\<lambda>tok. \<not> str_isdigit (strip tok)) (split CHR '','' s))"
    and fits: "fits b (min (case recurrence_until b of Some u \<Rightarrow> u | None \<Rightarrow> we) we)"
  shows "expand_occurrences b ws we = Inr []"
proof -
  have dn: "day_nums b = Inr []"
    using days by (auto simp: day_nums_def ints_of_tokens_no_digits str_isdigit_def strip_def)
  have "included rt [] = (\<lambda>d. False)"
    using kind(2) by (auto simp: included_def fun_eq_iff)
  then show ?thesis
    unfolding expand_recurring_eq [OF kind(1) dn fits] by simp
qed

text \<open>
  C10. The column \<open>recurrence_days\<close> holding the one character U+00B2 (superscript
  two) has no token that is an integer: \<open>int\<close> rejects it. The filter
  \<open>d.strip().isdigit()\<close> lets it through all the same (\<open>str.isdigit\<close> counts the
  superscript digits as digits), and expansion raises \<open>ValueError\<close> instead of
  returning the empty list.
\<close>

theorem expand_superscript_day_raises:
  "str_isdigit (strip [CHR 0xB2]) \<and> py_int [CHR 0xB2] = Inl ValueError
   \<and> expand_occurrences \<lparr>start_dt = 15000, end_dt = 15060,
         recurrence_type = Some ''monthly'', recurrence_days = Some [CHR 0xB2],
         recurrence_until = Some 12\<rparr> 10 12 = Inl ValueError"
  by (simp add: expand_occurrences_def str_defs)

section \<open>Conflict detection: the loops in closed form\<close>

lemma scan_ex_occurrences_eq:
  "scan_ex_occurrences ex p_start p_end occs acc = acc @ conflicts_of ex occs (p_start, p_end)"
  by (induction occs arbitrary: acc) (auto simp: conflicts_of_def overlaps_def)

lemma scan_proposed_eq:
  "scan_proposed ex proposed occs acc = acc @ concat (map (conflicts_of ex occs) proposed)"
  by (induction proposed arbitrary: acc) (auto simp: scan_ex_occurrences_eq)

lemma scan_existing_eq:
  assumes "\<forall>ex \<in> set exs. \<not> skipped exclude ex \<longrightarrow> expand_occurrences ex ws we = Inr (occ ex)"
  shows "scan_existing exs exclude proposed ws we acc =
           Inr (acc @ concat (map (\<lambda>ex. concat (map (conflicts_of ex (occ ex)) proposed))
                                 (filter (\<lambda>ex. \<not> skipped exclude ex) exs)))"
  using assms by (induction exs arbitrary: acc) (auto simp: scan_proposed_eq)

lemma skipped_iff:
  "row_id ex \<noteq> 0 \<Longrightarrow> skipped exclude ex = (exclude = Some (row_id ex))"
  by (auto simp: skipped_def split: option.splits)

lemma conflicts_of_sorted:
  assumes "sorted_wrt (<) (map fst occs)"
  shows "sorted_wrt (<) (map c_start_dt (conflicts_of ex occs p))"
proof -
  have "map c_start_dt (conflicts_of ex occs p) = filter (\<lambda>t. True) (map fst (filter (overlaps p) occs))"
    by (simp add: conflicts_of_def mk_conflict_def comp_def)
  also have "\<dots> = map fst (filter (overlaps p) occs)" by simp
  finally have eq: "map c_start_dt (conflicts_of ex occs p) = map fst (filter (overlaps p) occs)" .
  have "sorted_wrt (\<lambda>a b. fst a < fst b) occs" using assms by (simp add: sorted_wrt_map)
  then have "sorted_wrt (\<lambda>a b. fst a < fst b) (filter (overlaps p) occs)"
    by (rule sorted_wrt_filter)
  then show ?thesis unfolding eq by (simp add: sorted_wrt_map)
qed

lemma check_conflicts_closed:
  assumes ids: "\<forall>ex \<in> set db. row_id ex \<noteq> 0"
    and win: "win_end_of s ru = Inr win_end"
    and cand: "expand_occurrences
                 \<lparr>start_dt = s, end_dt = e, recurrence_type = rt, recurrence_days = rd,
                  recurrence_until = ru\<rparr> (win_start_of s) win_end = Inr proposed"
    and exs: "\<forall>ex \<in> set db. room_id ex = rid \<and> \<not> is_cancelled ex \<and> exclude \<noteq> Some (row_id ex)
                \<longrightarrow> expand_occurrences ex (win_start_of s) win_end = Inr (occ ex)"
  shows "check_conflicts db rid s e rt rd ru exclude =
           Inr (concat (map (\<lambda>ex. concat (map (conflicts_of ex (occ ex)) proposed))
                  (filter (\<lambda>ex. room_id ex = rid \<and> \<not> is_cancelled ex
                                \<and> exclude \<noteq> Some (row_id ex)) db)))"
proof -
  let ?act = "room_bookings db rid"
  have ex': "\<forall>ex \<in> set ?act. \<not> skipped exclude ex \<longrightarrow>
               expand_occurrences ex (win_start_of s) win_end = Inr (occ ex)"
    using exs ids by (simp add: room_bookings_def skipped_iff)
  have flt: "filter (\<lambda>ex. \<not> skipped exclude ex) ?act
             = filter (\<lambda>ex. room_id ex = rid \<and> \<not> is_cancelled ex \<and> exclude \<noteq> Some (row_id ex)) db"
    unfolding room_bookings_def filter_filter
    by (rule filter_cong) (use ids in \<open>auto simp: skipped_iff\<close>)
  have scan: "scan_existing ?act exclude proposed (win_start_of s) win_end [] =
        Inr (concat (map (\<lambda>ex. concat (map (conflicts_of ex (occ ex)) proposed))
               (filter (\<lambda>ex. room_id ex = rid \<and> \<not> is_cancelled ex \<and> exclude \<noteq> Some (row_id ex)) db)))"
    unfolding scan_existing_eq [OF ex'] flt by simp
  show ?thesis
    using win cand scan by (simp add: check_conflicts_def Let_def)
qed

section \<open>Conflict records\<close>



section \<open>Order of the conflict records\<close>

text \<open>
  C3, as stated, fails. A daily candidate from Monday to Wednesday meets a weekly row
  (id 1, Mondays and Wednesdays) and a single booking on Tuesday (id 2): the records
  come out as Monday, Wednesday, Tuesday, which is not ascending in the start of the
  existing occurrence; with the two rows stored in the other order they come out as
  Tuesday, Monday, Wednesday.
\<close>

theorem check_conflicts_order_counterexample:
  "check_conflicts
     [mk_row 1 1 1064016600 1064016660 (Some ''weekly'') (Some ''0,2'') (Some 738902),
      mk_row 2 1 1064018040 1064018100 None None None]
     1 1064016600 1064016660 (Some ''daily'') None (Some 738902) None
   = Inr [mk_conflict (mk_row 1 1 1064016600 1064016660 (Some ''weekly'') (Some ''0,2'') (Some 738902))
            (1064016600, 1064016660),
          mk_conflict (mk_row 1 1 1064016600 1064016660 (Some ''weekly'') (Some ''0,2'') (Some 738902))
            (1064019480, 1064019540),
          mk_conflict (mk_row 2 1 1064018040 1064018100 None None None)
            (1064018040, 1064018100)]
   \<and> c_start_dt (mk_conflict (mk_row 2 1 1064018040 1064018100 None None None)
                    (1064018040, 1064018100))
     < c_start_dt (mk_conflict (mk_row 1 1 1064016600 1064016660 (Some ''weekly'') (Some ''0,2'')
                                  (Some 738902)) (1064019480, 1064019540))
   \<and> check_conflicts
     [mk_row 2 1 1064018040 1064018100 None None None,
      mk_row 1 1 1064016600 1064016660 (Some ''weekly'') (Some ''0,2'') (Some 738902)]
     1 1064016600 1064016660 (Some ''daily'') None (Some 738902) None
   = Inr [mk_conflict (mk_row 2 1 1064018040 1064018100 None None None)
            (1064018040, 1064018100),
          mk_conflict (mk_row 1 1 1064016600 1064016660 (Some ''weekly'') (Some ''0,2'') (Some 738902))
            (1064016600, 1064016660),
          mk_conflict (mk_row 1 1 1064016600 1064016660 (Some ''weekly'') (Some ''0,2'') (Some 738902))
            (1064019480, 1064019540)]
   \<and> c_start_dt (mk_conflict (mk_row 1 1 1064016600 1064016660 (Some ''weekly'') (Some ''0,2'')
                                  (Some 738902)) (1064016600, 1064016660))
     < c_start_dt (mk_conflict (mk_row 2 1 1064018040 1064018100 None None None)
                    (1064018040, 1064018100))"
  by (simp add: check_conflicts_def eval_defs str_defs mk_conflict_def)

text \<open>
  C3, amended. The result is the concatenation, over the rows of the room that are
  neither cancelled nor excluded, in storage order, and for each row over the
  proposed occurrences, which are in strictly ascending order of start, of the
  records \<open>conflicts_of ex (occ ex) p\<close> of the row \<open>ex\<close> for the proposed occurrence
  \<open>p\<close>. The records of one row and one proposed occurrence all carry the id of the
  row and an occurrence that overlaps the proposed one, and they are in strictly
  ascending order of the start of the existing occurrence.
\<close>

theorem check_conflicts_order:
  assumes ids: "\<forall>ex \<in> set db. row_id ex \<noteq> 0"
    and win: "win_end_of s ru = Inr win_end"
    and cand: "expand_occurrences
                 \<lparr>start_dt = s, end_dt = e, recurrence_type = rt, recurrence_days = rd,
                  recurrence_until = ru\<rparr> (win_start_of s) win_end = Inr proposed"
    and exs: "\<forall>ex \<in> set db. room_id ex = rid \<and> \<not> is_cancelled ex \<and> exclude \<noteq> Some (row_id ex)
                \<longrightarrow> expand_occurrences ex (win_start_of s) win_end = Inr (occ ex)"
  shows "check_conflicts db rid s e rt rd ru exclude =
           Inr (concat (map (\<lambda>ex. concat (map (\<lambda>p. conflicts_of ex (occ ex) p) proposed))
                  (filter (\<lambda>ex. room_id ex = rid \<and> \<not> is_cancelled ex
                                \<and> exclude \<noteq> Some (row_id ex)) db)))
         \<and> sorted_wrt (<) (map fst proposed)
         \<and> (\<forall>ex \<in> set db. room_id ex = rid \<and> \<not> is_cancelled ex \<and> exclude \<noteq> Some (row_id ex)
              \<longrightarrow> (\<forall>p. sorted_wrt (<) (map c_start_dt (conflicts_of ex (occ ex) p))
                       \<and> list_all (\<lambda>c. c_booking_id c = row_id ex \<and> overlaps p (c_start_dt c, c_end_dt c))
                           (conflicts_of ex (occ ex) p)))"
proof (intro conjI ballI impI allI)
  show "check_conflicts db rid s e rt rd ru exclude =
           Inr (concat (map (\<lambda>ex. concat (map (\<lambda>p. conflicts_of ex (occ ex) p) proposed))
                  (filter (\<lambda>ex. room_id ex = rid \<and> \<not> is_cancelled ex
                                \<and> exclude \<noteq> Some (row_id ex)) db)))"
    by (rule check_conflicts_closed [OF ids win cand exs])
  show "sorted_wrt (<) (map fst proposed)" by (rule expand_sorted [OF cand])
next
  fix ex p
  assume "ex \<in> set db" "room_id ex = rid \<and> \<not> is_cancelled ex \<and> exclude \<noteq> Some (row_id ex)"
  then have "expand_occurrences ex (win_start_of s) win_end = Inr (occ ex)"
    using exs by blast
  then have "sorted_wrt (<) (map fst (occ ex))" by (rule expand_sorted)
  then show "sorted_wrt (<) (map c_start_dt (conflicts_of ex (occ ex) p))"
    by (rule conflicts_of_sorted)
next
  fix ex p
  show "list_all (\<lambda>c. c_booking_id c = row_id ex \<and> overlaps p (c_start_dt c, c_end_dt c))
          (conflicts_of ex (occ ex) p)"
    by (simp add: conflicts_of_def list_all_iff mk_conflict_def)
qed

theorem check_conflicts_order_witness:
  "check_conflicts
     [mk_row 1 1 1064016600 1064016660 (Some ''daily'') None (Some 738902),
      mk_row 2 1 1064018040 1064018100 None None None]
     1 1064016540 1064018160 (Some ''daily'') None (Some 738901) None
   = Inr [mk_conflict (mk_row 1 1 1064016600 1064016660 (Some ''daily'') None (Some 738902))
            (1064016600, 1064016660),
          mk_conflict (mk_row 1 1 1064016600 1064016660 (Some ''daily'') None (Some 738902))
            (1064018040, 1064018100),
          mk_conflict (mk_row 1 1 1064016600 1064016660 (Some ''daily'') None (Some 738902))
            (1064018040, 1064018100),
          mk_conflict (mk_row 2 1 1064018040 1064018100 None None None)
            (1064018040, 1064018100),
          mk_conflict (mk_row 2 1 1064018040 1064018100 None None None)
            (1064018040, 1064018100)]"
proof -
  let ?r1 = "mk_row 1 1 1064016600 1064016660 (Some ''daily'') None (Some 738902)"
  let ?r2 = "mk_row 2 1 1064018040 1064018100 None None None"
  let ?db = "[?r1, ?r2]"
  let ?occ = "\<lambda>ex::booking. if row_id ex = 1
                then [(1064016600::int, 1064016660::int), (1064018040, 1064018100)]
                else [(1064018040, 1064018100)]"
  have ids: "\<forall>ex \<in> set ?db. row_id ex \<noteq> 0" by (simp add: mk_row_def)
  have w: "win_end_of 1064016540 (Some 738901) = Inr 738901" by (simp add: eval_defs)
  have c: "expand_occurrences
              \<lparr>start_dt = 1064016540, end_dt = 1064018160, recurrence_type = Some ''daily'',
               recurrence_days = None, recurrence_until = Some 738901\<rparr>
              (win_start_of 1064016540) 738901
            = Inr [(1064016540, 1064018160), (1064017980, 1064019600)]"
    by (simp add: eval_defs str_defs)
  have e: "\<forall>ex \<in> set ?db. room_id ex = 1 \<and> \<not> is_cancelled ex \<and> None \<noteq> Some (row_id ex)
              \<longrightarrow> expand_occurrences ex (win_start_of 1064016540) 738901 = Inr (?occ ex)"
    by (simp add: eval_defs str_defs)
  show ?thesis
    using check_conflicts_order [OF ids w c e]
    by (simp add: conflicts_of_def overlaps_def mk_row_def)
qed

section \<open>The check window\<close>

text \<open>
  With an \<open>until\<close> date the window ends on it; without one it ends 366 days after
  the anchor date, and computing that date raises \<open>OverflowError\<close> when it lies
  after 9999-12-31. Once the window is there, the candidate is expanded over it; an
  empty expansion gives the empty list whatever the table holds.
\<close>

lemma check_conflicts_window:
  assumes "win_end_of s ru = Inr win_end"
  shows "check_conflicts db rid s e rt rd ru exclude =
     (case expand_occurrences
             \<lparr>start_dt = s, end_dt = e, recurrence_type = rt, recurrence_days = rd,
              recurrence_until = ru\<rparr> (dt_date s) win_end of
        Inl err \<Rightarrow> Inl err
      | Inr proposed \<Rightarrow>
          if proposed = [] then Inr []
          else scan_existing (room_bookings db rid) exclude proposed (dt_date s) win_end [])"
  using assms by (simp add: check_conflicts_def Let_def win_start_of_def)

lemma win_end_of_cases:
  "win_end_of s ru =
     (case ru of
        Some u \<Rightarrow> Inr u
      | None \<Rightarrow> if 0 < dt_date s + 366 \<and> dt_date s + 366 \<le> MAXORDINAL
                then Inr (dt_date s + 366) else Inl OverflowError)"
  by (simp add: win_end_of_def date_add_def Let_def split: option.splits)

lemma check_conflicts_empty_candidate:
  assumes "win_end_of s ru = Inr win_end"
    and "expand_occurrences
           \<lparr>start_dt = s, end_dt = e, recurrence_type = rt, recurrence_days = rd,
            recurrence_until = ru\<rparr> (dt_date s) win_end = Inr []"
  shows "check_conflicts db rid s e rt rd ru exclude = Inr []"
  unfolding check_conflicts_window [OF assms(1)] assms(2) by simp

text \<open>
  C7. A candidate without recurrence anchored on 9999-01-01: the end of the check
  window, 366 days after the anchor date, lies after 9999-12-31, and
  \<open>check_conflicts\<close> raises \<open>OverflowError\<close> instead of computing a window. A
  monthly candidate for the 15th anchored on 9999-12-30 with \<open>until\<close> 9999-12-31 has no
  occurrence in its window, and \<open>check_conflicts\<close> raises \<open>OverflowError\<close> inside
  the candidate's expansion instead of returning the empty list.
\<close>

theorem check_conflicts_late_anchor_raises:
  "check_conflicts [] 1 (combine (ymd2ord 9999 1 1) 600) (combine (ymd2ord 9999 1 1) 660)
     None None None None = Inl OverflowError
   \<and> check_conflicts [] 1 (combine (ymd2ord 9999 12 30) 600) (combine (ymd2ord 9999 12 30) 660)
       (Some ''monthly'') (Some ''15'') (Some (ymd2ord 9999 12 31)) None = Inl OverflowError"
  by (simp add: check_conflicts_def cal_defs eval_defs str_defs date_day_def ord2ymd_def)

section \<open>Free rooms\<close>

lemma free_loop_eq:
  assumes "\<forall>r \<in> set all_rooms. \<exists>cs. check_conflicts db (room_row_id r) s e None None None None = Inr cs"
  shows "free_loop db all_rooms s e acc =
           Inr (acc @ filter (\<lambda>r. check_conflicts db (room_row_id r) s e None None None None = Inr [])
                        all_rooms)"
  using assms by (induction all_rooms arbitrary: acc) auto

text \<open>
  C8. When the conflict check of every active room of the company returns without
  error, \<open>find_free_rooms\<close> returns the active rooms, in their order, for which the
  check of the non-recurring candidate from \<open>start\<close> to \<open>end\<close> returns the empty
  list.
\<close>

theorem find_free_rooms_filter:
  assumes "\<forall>r \<in> set (active_rooms tbl cid).
             \<exists>cs. check_conflicts db (room_row_id r) s e None None None None = Inr cs"
  shows "find_free_rooms db tbl cid s e =
           Inr (filter (\<lambda>r. check_conflicts db (room_row_id r) s e None None None None = Inr [])
                  (active_rooms tbl cid))"
  unfolding find_free_rooms_def free_loop_eq [OF assms] by simp

theorem find_free_rooms_filter_witness:
  "find_free_rooms
     [mk_row 1 2 1064018280 1064018340 None None None]
     [mk_room 3 1 ''C'' True, mk_room 1 1 ''A'' True, mk_room 4 1 ''D'' False,
      mk_room 2 1 ''B'' True, mk_room 5 2 ''E'' True]
     1 1064018280 1064018340
   = Inr [mk_room 1 1 ''A'' True, mk_room 3 1 ''C'' True]"
proof -
  let ?db = "[mk_row 1 2 1064018280 1064018340 None None None]"
  let ?tbl = "[mk_room 3 1 ''C'' True, mk_room 1 1 ''A'' True, mk_room 4 1 ''D'' False,
      mk_room 2 1 ''B'' True, mk_room 5 2 ''E'' True]"
  have a: "active_rooms ?tbl 1 = [mk_room 1 1 ''A'' True, mk_room 2 1 ''B'' True, mk_room 3 1 ''C'' True]"
    by (simp add: active_rooms_def mk_room_def)
  have c: "check_conflicts ?db 1 1064018280 1064018340 None None None None = Inr []"
    "check_conflicts ?db 2 1064018280 1064018340 None None None None
       = Inr [mk_conflict (mk_row 1 2 1064018280 1064018340 None None None) (1064018280, 1064018340)]"
    "check_conflicts ?db 3 1064018280 1064018340 None None None None = Inr []"
    by (simp_all add: check_conflicts_def eval_defs)
  have h: "\<forall>r \<in> set (active_rooms ?tbl 1).
             \<exists>cs. check_conflicts ?db (room_row_id r) 1064018280 1064018340 None None None None = Inr cs"
    unfolding a using c by (simp add: mk_room_def)
  show ?thesis
    using find_free_rooms_filter [OF h] c unfolding a
    by (simp add: mk_room_def)
qed

section \<open>Room schedule\<close>







end
